theory Spec2Isabelle
  imports Main
begin

section \<open>Scores: Python integers together with the two float infinities\<close>

text \<open>
  \<^verbatim>\<open>INFINITY = float('inf')\<close>. Every score the search handles is either an unbounded
  Python integer (a piece-count difference) or one of \<^verbatim>\<open>INFINITY\<close>, \<^verbatim>\<open>-INFINITY\<close>.
  Python compares an integer with a float infinity exactly, so the order is the order of
  the integers with a least and a greatest element added.
\<close>

datatype score = NegInf | Fin int | PosInf

instantiation score :: linorder
begin

fun less_eq_score :: "score \<Rightarrow> score \<Rightarrow> bool" where
  "less_eq_score NegInf y = True"
| "less_eq_score (Fin a) NegInf = False"
| "less_eq_score (Fin a) (Fin b) = (a \<le> b)"
| "less_eq_score (Fin a) PosInf = True"
| "less_eq_score PosInf NegInf = False"
| "less_eq_score PosInf (Fin b) = False"
| "less_eq_score PosInf PosInf = True"

fun less_score :: "score \<Rightarrow> score \<Rightarrow> bool" where
  "less_score NegInf NegInf = False"
| "less_score NegInf (Fin b) = True"
| "less_score NegInf PosInf = True"
| "less_score (Fin a) NegInf = False"
| "less_score (Fin a) (Fin b) = (a < b)"
| "less_score (Fin a) PosInf = True"
| "less_score PosInf y = False"

instance
proof
  fix x y z :: score
  show "(x < y) = (x \<le> y \<and> \<not> y \<le> x)"
    by (cases x; cases y) auto
  show "x \<le> x"
    by (cases x) auto
  show "x \<le> y \<Longrightarrow> y \<le> z \<Longrightarrow> x \<le> z"
    by (cases x; cases y; cases z) auto
  show "x \<le> y \<Longrightarrow> y \<le> x \<Longrightarrow> x = y"
    by (cases x; cases y) auto
  show "x \<le> y \<or> y \<le> x"
    by (cases x; cases y) auto
qed

end

section \<open>The Board collaborator\<close>

text \<open>
  \<^verbatim>\<open>from board import Board\<close>: the class is used by the agent but is not part of it, so
  its three members that the agent touches are parameters of the model. A board state is
  a value of type \<open>'b\<close>, a move a value of type \<open>'m\<close>, a colour a Python string.
  \<^item> \<open>legal_moves b c\<close> is the list \<^verbatim>\<open>board.legal_moves(color)\<close>;
  \<^item> \<open>process_move b m c\<close> is the state of the board object after the in-place call
    \<^verbatim>\<open>board.process_move(move, color)\<close> (its return value is ignored by the agent);
  \<^item> \<open>tiles b i j\<close> is the cell \<^verbatim>\<open>board.tiles[i][j]\<close> of the 8 by 8 grid, for \<open>i, j < 8\<close>.
\<close>

record ('b, 'm) board_ops =
  legal_moves :: "'b \<Rightarrow> string \<Rightarrow> 'm list"
  process_move :: "'b \<Rightarrow> 'm \<Rightarrow> string \<Rightarrow> 'b"
  tiles :: "'b \<Rightarrow> nat \<Rightarrow> nat \<Rightarrow> string"

section \<open>The agent\<close>

datatype py_error = IndexError | IllegalState | InvalidArgument

text \<open>
  \<open>IndexError\<close> is what Python raises on \<^verbatim>\<open>legal_moves[0]\<close> for an empty list. The other
  two are the conditions the specification names; no statement of the agent raises them.
\<close>

record 'b GameStrategy =
  self_depth_limit :: int
  self_board :: 'b
  self_color :: string
  self_opponent_color :: string

definition opponent_color :: "string \<Rightarrow> string" where
  "opponent_color color = (if color = ''W'' then ''B'' else ''W'')"

text \<open>\<^verbatim>\<open>__init__\<close> stores its arguments; it has no check and no \<^verbatim>\<open>raise\<close>.\<close>

definition GameStrategy_init :: "int \<Rightarrow> 'b \<Rightarrow> string \<Rightarrow> py_error + 'b GameStrategy" where
  "GameStrategy_init depth_limit board color =
     Inr \<lparr>self_depth_limit = depth_limit, self_board = board, self_color = color,
          self_opponent_color = opponent_color color\<rparr>"

text \<open>
  \<^verbatim>\<open>_count_pieces\<close>: \<open>j\<close> runs over \<^verbatim>\<open>range(8)\<close> in the outer loop, \<open>i\<close> in the inner one,
  and the counter goes up by one at each cell equal to the colour.
\<close>

definition count_pieces :: "('b, 'm) board_ops \<Rightarrow> 'b \<Rightarrow> string \<Rightarrow> int" where
  "count_pieces ops board color =
     fold (\<lambda>j count. fold (\<lambda>i count. if tiles ops board i j = color then count + 1 else count)
                          [0..<8] count)
          [0..<8] 0"

definition cost_compute :: "('b, 'm) board_ops \<Rightarrow> 'b \<Rightarrow> string \<Rightarrow> int" where
  "cost_compute ops board color =
     (let oponent_pieces = count_pieces ops board (opponent_color color);
          my_pieces = count_pieces ops board color
      in my_pieces - oponent_pieces)"

text \<open>
  \<^verbatim>\<open>_min_score\<close> and \<^verbatim>\<open>_max_score\<close> call each other with \<^verbatim>\<open>depth-1\<close> and stop at
  \<^verbatim>\<open>depth == 0\<close> only; \<open>depth\<close> is a Python integer, so a call with a negative depth never
  meets the base case. The first argument bounds the nesting of the calls: each call of
  \<open>min_score\<close> or \<open>max_score\<close> uses one unit, and \<open>None\<close> says that the bound was
  reached before the call returned. The \<^verbatim>\<open>for\<close> loops are \<open>min_loop\<close> and \<open>max_loop\<close>,
  over the moves still to visit, with the loop's variables \<open>alpha\<close>, \<open>beta\<close> and
  \<open>best_score\<close> as arguments. \<^verbatim>\<open>deepcopy(board)\<close> followed by the in-place
  \<^verbatim>\<open>process_move\<close> on the copy gives the value \<open>process_move ops board move color\<close>.
\<close>

function min_score :: "nat \<Rightarrow> ('b, 'm) board_ops \<Rightarrow> 'b \<Rightarrow> string \<Rightarrow> score \<Rightarrow> score \<Rightarrow> int
                    \<Rightarrow> score option"
and min_loop :: "nat \<Rightarrow> ('b, 'm) board_ops \<Rightarrow> 'b \<Rightarrow> string \<Rightarrow> 'm list \<Rightarrow> score \<Rightarrow> score
                    \<Rightarrow> score \<Rightarrow> int \<Rightarrow> score option"
and max_score :: "nat \<Rightarrow> ('b, 'm) board_ops \<Rightarrow> 'b \<Rightarrow> string \<Rightarrow> score \<Rightarrow> score \<Rightarrow> int
                    \<Rightarrow> score option"
and max_loop :: "nat \<Rightarrow> ('b, 'm) board_ops \<Rightarrow> 'b \<Rightarrow> string \<Rightarrow> 'm list \<Rightarrow> score \<Rightarrow> score
                    \<Rightarrow> score \<Rightarrow> int \<Rightarrow> score option"
where
  "min_score 0 ops board color alpha beta depth = None"
| "min_score (Suc n) ops board color alpha beta depth =
     (if depth = 0 then Some (Fin (cost_compute ops board color))
      else min_loop n ops board color (legal_moves ops board color) alpha beta PosInf depth)"
| "min_loop n ops board color [] alpha beta best_score depth = Some best_score"
| "min_loop n ops board color (move # moves) alpha beta best_score depth =
     (let test_board = process_move ops board move color in
      case max_score n ops test_board (opponent_color color) alpha beta (depth - 1) of
        None \<Rightarrow> None
      | Some score \<Rightarrow>
          (let best_score = (if score < best_score then score else best_score) in
           if best_score \<le> alpha then Some best_score
           else min_loop n ops board color moves alpha (min beta best_score) best_score depth))"
| "max_score 0 ops board color alpha beta depth = None"
| "max_score (Suc n) ops board color alpha beta depth =
     (if depth = 0 then Some (Fin (cost_compute ops board color))
      else max_loop n ops board color (legal_moves ops board color) alpha beta NegInf depth)"
| "max_loop n ops board color [] alpha beta best_score depth = Some best_score"
| "max_loop n ops board color (move # moves) alpha beta best_score depth =
     (let test_board = process_move ops board move color in
      case min_score n ops test_board (opponent_color color) alpha beta (depth - 1) of
        None \<Rightarrow> None
      | Some score \<Rightarrow>
          (let best_score = (if score > best_score then score else best_score) in
           if best_score \<ge> beta then Some best_score
           else max_loop n ops board color moves (max alpha best_score) beta best_score depth))"
  by pat_completeness auto

termination
  by (relation "inv_image (less_than <*lex*> less_than)
        (\<lambda>x. case x of
            Inl (Inl (n, ops, b, c, al, be, d)) \<Rightarrow> (2 * n, 0)
          | Inl (Inr (n, ops, b, c, ms, al, be, bs, d)) \<Rightarrow> (2 * n + 1, length ms)
          | Inr (Inl (n, ops, b, c, al, be, d)) \<Rightarrow> (2 * n, 0)
          | Inr (Inr (n, ops, b, c, ms, al, be, bs, d)) \<Rightarrow> (2 * n + 1, length ms))") auto

text \<open>
  The body of the \<^verbatim>\<open>for\<close> loop of \<^verbatim>\<open>alpha_beta_min_max\<close> computes, for a move, the
  score of the position after it: the move is played on a copy of \<^verbatim>\<open>self.board\<close> and
  the copy is searched for the opponent with the full window and \<^verbatim>\<open>depth_limit-1\<close>.
\<close>

definition root_score :: "nat \<Rightarrow> ('b, 'm) board_ops \<Rightarrow> 'b GameStrategy \<Rightarrow> 'm \<Rightarrow> score option" where
  "root_score n ops self move =
     (let test_board = process_move ops (self_board self) move (self_color self) in
      min_score n ops test_board (self_opponent_color self) NegInf PosInf
        (self_depth_limit self - 1))"

text \<open>The loop itself, with its variables \<open>best_score\<close> and \<open>final_move\<close>.\<close>

fun alpha_beta_loop :: "nat \<Rightarrow> ('b, 'm) board_ops \<Rightarrow> 'b GameStrategy \<Rightarrow> 'm list \<Rightarrow> score \<Rightarrow> 'm
                          \<Rightarrow> 'm option" where
  "alpha_beta_loop n ops self [] best_score final_move = Some final_move"
| "alpha_beta_loop n ops self (move # moves) best_score final_move =
     (case root_score n ops self move of
        None \<Rightarrow> None
      | Some score \<Rightarrow>
          if score > best_score then alpha_beta_loop n ops self moves score move
          else alpha_beta_loop n ops self moves best_score final_move)"

text \<open>
  \<^verbatim>\<open>final_move = legal_moves[0]\<close> raises \<^verbatim>\<open>IndexError\<close> on the empty list, before the
  loop. The outer \<open>None\<close> is the nesting bound of the recursive steps.
\<close>

definition alpha_beta_min_max :: "nat \<Rightarrow> ('b, 'm) board_ops \<Rightarrow> 'b GameStrategy
                                     \<Rightarrow> (py_error + 'm) option" where
  "alpha_beta_min_max n ops self =
     (let legal_moves = legal_moves ops (self_board self) (self_color self) in
      case legal_moves of
        [] \<Rightarrow> Some (Inl IndexError)
      | final_move # _ \<Rightarrow>
          map_option Inr (alpha_beta_loop n ops self legal_moves NegInf final_move))"

definition make_move :: "nat \<Rightarrow> ('b, 'm) board_ops \<Rightarrow> 'b \<Rightarrow> string \<Rightarrow> (py_error + 'm) option" where
  "make_move n ops the_board color =
     (case GameStrategy_init 4 the_board color of
        Inl e \<Rightarrow> Some (Inl e)
      | Inr game_strategy \<Rightarrow> alpha_beta_min_max n ops game_strategy)"

section \<open>The same search over a store of board objects\<close>

text \<open>
  Boards are mutable objects: \<^verbatim>\<open>process_move\<close> changes the object it is called on, and
  \<^verbatim>\<open>deepcopy\<close> makes a new object. Here the store is the list of all board objects made so
  far, an object's address is its index, \<^verbatim>\<open>deepcopy\<close> appends a copy and returns the new
  address, and \<^verbatim>\<open>process_move\<close> overwrites the object at the address it is called on.
  \<^verbatim>\<open>legal_moves\<close> and the reads of \<^verbatim>\<open>tiles\<close> are queries. Every function returns the
  store it leaves behind; \<^verbatim>\<open>self.board\<close> is an address.
\<close>

definition deepcopy :: "'b list \<Rightarrow> nat \<Rightarrow> 'b list \<times> nat" where
  "deepcopy h a = (h @ [h ! a], length h)"

definition process_move_at :: "('b, 'm) board_ops \<Rightarrow> 'b list \<Rightarrow> nat \<Rightarrow> 'm \<Rightarrow> string \<Rightarrow> 'b list" where
  "process_move_at ops h a move color = h[a := process_move ops (h ! a) move color]"

function min_score_st :: "nat \<Rightarrow> ('b, 'm) board_ops \<Rightarrow> 'b list \<Rightarrow> nat \<Rightarrow> string \<Rightarrow> score \<Rightarrow> score
                            \<Rightarrow> int \<Rightarrow> (score \<times> 'b list) option"
and min_loop_st :: "nat \<Rightarrow> ('b, 'm) board_ops \<Rightarrow> 'b list \<Rightarrow> nat \<Rightarrow> string \<Rightarrow> 'm list \<Rightarrow> score
                            \<Rightarrow> score \<Rightarrow> score \<Rightarrow> int \<Rightarrow> (score \<times> 'b list) option"
and max_score_st :: "nat \<Rightarrow> ('b, 'm) board_ops \<Rightarrow> 'b list \<Rightarrow> nat \<Rightarrow> string \<Rightarrow> score \<Rightarrow> score
                            \<Rightarrow> int \<Rightarrow> (score \<times> 'b list) option"
and max_loop_st :: "nat \<Rightarrow> ('b, 'm) board_ops \<Rightarrow> 'b list \<Rightarrow> nat \<Rightarrow> string \<Rightarrow> 'm list \<Rightarrow> score
                            \<Rightarrow> score \<Rightarrow> score \<Rightarrow> int \<Rightarrow> (score \<times> 'b list) option"
where
  "min_score_st 0 ops h board color alpha beta depth = None"
| "min_score_st (Suc n) ops h board color alpha beta depth =
     (if depth = 0 then Some (Fin (cost_compute ops (h ! board) color), h)
      else min_loop_st n ops h board color (legal_moves ops (h ! board) color)
             alpha beta PosInf depth)"
| "min_loop_st n ops h board color [] alpha beta best_score depth = Some (best_score, h)"
| "min_loop_st n ops h board color (move # moves) alpha beta best_score depth =
     (let (h, test_board) = deepcopy h board;
          h = process_move_at ops h test_board move color in
      case max_score_st n ops h test_board (opponent_color color) alpha beta (depth - 1) of
        None \<Rightarrow> None
      | Some (score, h) \<Rightarrow>
          (let best_score = (if score < best_score then score else best_score) in
           if best_score \<le> alpha then Some (best_score, h)
           else min_loop_st n ops h board color moves alpha (min beta best_score) best_score
                  depth))"
| "max_score_st 0 ops h board color alpha beta depth = None"
| "max_score_st (Suc n) ops h board color alpha beta depth =
     (if depth = 0 then Some (Fin (cost_compute ops (h ! board) color), h)
      else max_loop_st n ops h board color (legal_moves ops (h ! board) color)
             alpha beta NegInf depth)"
| "max_loop_st n ops h board color [] alpha beta best_score depth = Some (best_score, h)"
| "max_loop_st n ops h board color (move # moves) alpha beta best_score depth =
     (let (h, test_board) = deepcopy h board;
          h = process_move_at ops h test_board move color in
      case min_score_st n ops h test_board (opponent_color color) alpha beta (depth - 1) of
        None \<Rightarrow> None
      | Some (score, h) \<Rightarrow>
          (let best_score = (if score > best_score then score else best_score) in
           if best_score \<ge> beta then Some (best_score, h)
           else max_loop_st n ops h board color moves (max alpha best_score) beta best_score
                  depth))"
  by pat_completeness auto

termination
  by (relation "inv_image (less_than <*lex*> less_than)
        (\<lambda>x. case x of
            Inl (Inl (n, ops, h, b, c, al, be, d)) \<Rightarrow> (2 * n, 0)
          | Inl (Inr (n, ops, h, b, c, ms, al, be, bs, d)) \<Rightarrow> (2 * n + 1, length ms)
          | Inr (Inl (n, ops, h, b, c, al, be, d)) \<Rightarrow> (2 * n, 0)
          | Inr (Inr (n, ops, h, b, c, ms, al, be, bs, d)) \<Rightarrow> (2 * n + 1, length ms))") auto

fun alpha_beta_loop_st :: "nat \<Rightarrow> ('b, 'm) board_ops \<Rightarrow> 'b list \<Rightarrow> nat GameStrategy \<Rightarrow> 'm list
                             \<Rightarrow> score \<Rightarrow> 'm \<Rightarrow> ('m \<times> 'b list) option" where
  "alpha_beta_loop_st n ops h self [] best_score final_move = Some (final_move, h)"
| "alpha_beta_loop_st n ops h self (move # moves) best_score final_move =
     (let (h, test_board) = deepcopy h (self_board self);
          h = process_move_at ops h test_board move (self_color self) in
      case min_score_st n ops h test_board (self_opponent_color self) NegInf PosInf
             (self_depth_limit self - 1) of
        None \<Rightarrow> None
      | Some (score, h) \<Rightarrow>
          if score > best_score then alpha_beta_loop_st n ops h self moves score move
          else alpha_beta_loop_st n ops h self moves best_score final_move)"

definition alpha_beta_min_max_st :: "nat \<Rightarrow> ('b, 'm) board_ops \<Rightarrow> 'b list \<Rightarrow> nat GameStrategy
                                        \<Rightarrow> ((py_error + 'm) \<times> 'b list) option" where
  "alpha_beta_min_max_st n ops h self =
     (let legal_moves = legal_moves ops (h ! self_board self) (self_color self) in
      case legal_moves of
        [] \<Rightarrow> Some (Inl IndexError, h)
      | final_move # _ \<Rightarrow>
          map_option (\<lambda>(move, h). (Inr move, h))
            (alpha_beta_loop_st n ops h self legal_moves NegInf final_move))"

section \<open>The unpruned search of the specification\<close>

text \<open>
  Full minimax to a fixed number of plies, written from the specification's words: the
  same leaf evaluation (of the side to move at the leaf), the sides alternate at every
  ply, a node without moves has the value \<open>PosInf\<close> when minimising and \<open>NegInf\<close> when
  maximising, and no branch is skipped.
\<close>

function minimax_min :: "('b, 'm) board_ops \<Rightarrow> 'b \<Rightarrow> string \<Rightarrow> nat \<Rightarrow> score"
and minimax_max :: "('b, 'm) board_ops \<Rightarrow> 'b \<Rightarrow> string \<Rightarrow> nat \<Rightarrow> score" where
  "minimax_min ops board color 0 = Fin (cost_compute ops board color)"
| "minimax_min ops board color (Suc d) =
     foldr (\<lambda>move acc. min (minimax_max ops (process_move ops board move color)
                                    (opponent_color color) d) acc)
           (legal_moves ops board color) PosInf"
| "minimax_max ops board color 0 = Fin (cost_compute ops board color)"
| "minimax_max ops board color (Suc d) =
     foldr (\<lambda>move acc. max (minimax_min ops (process_move ops board move color)
                                    (opponent_color color) d) acc)
           (legal_moves ops board color) NegInf"
  by pat_completeness auto

termination
  by (relation "measure (\<lambda>x. case x of Inl (ops, b, c, d) \<Rightarrow> d | Inr (ops, b, c, d) \<Rightarrow> d)")
     auto

text \<open>
  The earliest element of \<open>m # ms\<close> at which \<open>f\<close> is greatest: \<open>m\<close> itself unless some
  later element is strictly better, and then the earliest greatest of the later ones.
\<close>

fun first_argmax :: "('m \<Rightarrow> score) \<Rightarrow> 'm \<Rightarrow> 'm list \<Rightarrow> 'm" where
  "first_argmax f m [] = m"
| "first_argmax f m (m' # ms) = (let r = first_argmax f m' ms in if f m < f r then r else m)"

definition minimax_move :: "('b, 'm) board_ops \<Rightarrow> 'b \<Rightarrow> string \<Rightarrow> nat \<Rightarrow> 'm option" where
  "minimax_move ops board color d =
     (case legal_moves ops board color of
        [] \<Rightarrow> None
      | m # ms \<Rightarrow>
          Some (first_argmax
                  (\<lambda>move. minimax_min ops (process_move ops board move color)
                                       (opponent_color color) (d - 1))
                  m ms))"

section \<open>Agreement of a pruned value with the true value\<close>

text \<open>
  What a search with the window \<open>(alpha, beta)\<close> promises about its result \<open>r\<close> when the
  true value is \<open>v\<close>: a result at or below \<open>alpha\<close> is an upper bound of \<open>v\<close>, a result at
  or above \<open>beta\<close> is a lower bound, and a result strictly inside the window is \<open>v\<close>.
\<close>

definition within_window :: "'a::linorder \<Rightarrow> 'a \<Rightarrow> 'a \<Rightarrow> 'a \<Rightarrow> bool" where
  "within_window alpha beta v r =
     ((r \<le> alpha \<longrightarrow> v \<le> r) \<and> (alpha < r \<and> r < beta \<longrightarrow> r = v) \<and> (beta \<le> r \<longrightarrow> r \<le> v))"

section \<open>A position for concrete evaluation\<close>

text \<open>
  A board is the grid \<^verbatim>\<open>tiles\<close> itself, a list of eight lists of eight cells. In the
  position \<open>ex_board\<close> the cells \<open>tiles[i][3]\<close>, \<open>i = 0..7\<close>, read \<^verbatim>\<open>. W W W B W . .\<close> and
  every other cell is empty. Under the rules of Othello Black has exactly two moves there:
  \<open>(0, 3)\<close>, which turns the three white pieces at \<open>i = 1, 2, 3\<close>, and \<open>(6, 3)\<close>, which turns
  the one at \<open>i = 5\<close>. The collaborator \<open>ex_ops\<close> answers for this position only; it
  reports no move anywhere else.
\<close>

definition ex_board :: "string list list" where
  "ex_board =
     map (\<lambda>i. map (\<lambda>j. if j = 3 \<and> i \<in> {1, 2, 3, 5} then ''W''
                        else if j = 3 \<and> i = 4 then ''B'' else ''.'') [0..<8])
         [0..<(8::nat)]"

definition ex_flips :: "string list list \<Rightarrow> nat \<times> nat \<Rightarrow> string \<Rightarrow> (nat \<times> nat) list" where
  "ex_flips b m c =
     (if b = ex_board \<and> c = ''B'' \<and> m = (0, 3) then [(1, 3), (2, 3), (3, 3)]
      else if b = ex_board \<and> c = ''B'' \<and> m = (6, 3) then [(5, 3)]
      else [])"

definition ex_ops :: "(string list list, nat \<times> nat) board_ops" where
  "ex_ops =
     \<lparr>legal_moves = (\<lambda>b c. if b = ex_board \<and> c = ''B'' then [(0, 3), (6, 3)] else []),
      process_move = (\<lambda>b m c. fold (\<lambda>(i, j) t. t[i := (t ! i)[j := c]]) (m # ex_flips b m c) b),
      tiles = (\<lambda>b i j. b ! i ! j)\<rparr>"

section \<open>Pruning does not change the value\<close>

lemma within_window_min_max:
  "a < b \<Longrightarrow> within_window a b v r \<longleftrightarrow> min v b \<le> r \<and> r \<le> max v a"
  unfolding within_window_def by (auto simp: min_def max_def)

lemma within_full_window: "within_window NegInf PosInf v r \<Longrightarrow> r = v"
  unfolding within_window_def by (cases r; cases v) auto

lemma within_window_refl: "within_window a b v v"
  by (simp add: within_window_def)

lemma min_cut:
  fixes a :: "'a::linorder"
  assumes "a < b" "within_window a b v s" "min s best \<le> a"
  shows "within_window a b (min best (min v rest)) (min s best)"
proof -
  have "min best (min v rest) \<le> min s best"
  proof (cases "s \<le> best")
    case True
    then have "s \<le> a" using assms(3) by (simp add: min_def)
    then have "v \<le> s" using assms(2) by (simp add: within_window_def)
    then show ?thesis using True by (auto simp: min_le_iff_disj)
  next
    case False
    then show ?thesis by (auto simp: min_def)
  qed
  moreover define m V where "m = min s best" and "V = min best (min v rest)"
  ultimately have "V \<le> m" "m \<le> a" using assms(3) by simp_all
  then have "within_window a b V m" using assms(1) by (auto simp: within_window_def)
  then show ?thesis by (simp add: m_def V_def)
qed

lemma min_go:
  fixes a :: "'a::linorder"
  assumes "a < b" "within_window a b v s" "\<not> min s best \<le> a"
    "within_window a (min b (min s best)) (min (min s best) rest) r"
  shows "within_window a b (min best (min v rest)) r"
proof -
  have ab': "a < min b (min s best)" using assms(1,3) by (simp add: not_le)
  have as: "a < s" using assms(3) by (simp add: not_le)
  have "s \<le> max v a" and vb: "min v b \<le> s"
    using assms(2) within_window_min_max[OF assms(1)] by auto
  then have sv: "s \<le> v" using as by (simp add: max_def split: if_splits)
  have lo: "min (min (min s best) rest) (min b (min s best)) \<le> r"
    and hi: "r \<le> max (min (min s best) rest) a"
    using assms(4) within_window_min_max[OF ab'] by auto
  have "min (min best (min v rest)) b \<le> min (min (min s best) rest) (min b (min s best))"
    using vb by (auto simp: min_le_iff_disj)
  then have 1: "min (min best (min v rest)) b \<le> r" using lo by (rule order_trans)
  have "min (min s best) rest \<le> min best (min v rest)"
    using sv by (auto simp: min_le_iff_disj)
  then have "max (min (min s best) rest) a \<le> max (min best (min v rest)) a"
    by (rule max.mono) simp_all
  then have 2: "r \<le> max (min best (min v rest)) a" using hi by (rule order_trans[rotated])
  show ?thesis using 1 2 within_window_min_max[OF assms(1)] by blast
qed

lemma max_cut:
  fixes a :: "'a::linorder"
  assumes "a < b" "within_window a b v s" "b \<le> max s best"
  shows "within_window a b (max best (max v rest)) (max s best)"
proof -
  have "max s best \<le> max best (max v rest)"
  proof (cases "best \<le> s")
    case True
    then have "b \<le> s" using assms(3) by (simp add: max_def)
    then have "s \<le> v" using assms(2) by (simp add: within_window_def)
    then show ?thesis using True by (auto simp: le_max_iff_disj)
  next
    case False
    then show ?thesis by (auto simp: max_def)
  qed
  moreover define m V where "m = max s best" and "V = max best (max v rest)"
  ultimately have "m \<le> V" "b \<le> m" using assms(3) by simp_all
  then have "within_window a b V m" using assms(1) by (auto simp: within_window_def)
  then show ?thesis by (simp add: m_def V_def)
qed

lemma max_go:
  fixes a :: "'a::linorder"
  assumes "a < b" "within_window a b v s" "\<not> b \<le> max s best"
    "within_window (max a (max s best)) b (max (max s best) rest) r"
  shows "within_window a b (max best (max v rest)) r"
proof -
  have ab': "max a (max s best) < b" using assms(1,3) by (simp add: not_le)
  have sb: "s < b" using assms(3) by (simp add: not_le)
  have sv: "s \<le> max v a" and "min v b \<le> s"
    using assms(2) within_window_min_max[OF assms(1)] by auto
  then have vs: "v \<le> s" using sb by (simp add: min_def split: if_splits)
  have lo: "min (max (max s best) rest) b \<le> r"
    and hi: "r \<le> max (max (max s best) rest) (max a (max s best))"
    using assms(4) within_window_min_max[OF ab'] by auto
  have "max best (max v rest) \<le> max (max s best) rest"
    using vs by (auto simp: le_max_iff_disj)
  then have "min (max best (max v rest)) b \<le> min (max (max s best) rest) b"
    by (rule min.mono) simp_all
  then have 1: "min (max best (max v rest)) b \<le> r" using lo by (rule order_trans)
  have "max (max (max s best) rest) (max a (max s best)) \<le> max (max best (max v rest)) a"
    using sv by (auto simp: le_max_iff_disj)
  then have 2: "r \<le> max (max best (max v rest)) a" using hi by (rule order_trans[rotated])
  show ?thesis using 1 2 within_window_min_max[OF assms(1)] by blast
qed

lemma PosInf_top: "min PosInf (x::score) = x"
  by (cases x) (auto simp: min_def)

lemma NegInf_bot: "max NegInf (x::score) = x"
  by (cases x) (auto simp: max_def)

lemma PosInf_top': "min (x::score) PosInf = x"
  by (cases x) (auto simp: min_def)

lemma NegInf_bot': "max (x::score) NegInf = x"
  by (cases x) (auto simp: max_def)

lemma min_loop_sound:
  assumes child: "\<And>b' a b. a < b \<Longrightarrow>
             \<exists>s. max_score n ops b' (opponent_color color) a b (depth - 1) = Some s \<and>
                 within_window a b (g b') s"
  shows "alpha < beta \<Longrightarrow>
         \<exists>r. min_loop n ops board color ms alpha beta best depth = Some r \<and>
             within_window alpha beta
               (min best (foldr (\<lambda>move acc. min (g (process_move ops board move color)) acc) ms PosInf)) r"
proof (induction ms arbitrary: beta best)
  case Nil
  show ?case by (simp add: within_window_refl PosInf_top')
next
  case (Cons m ms)
  let ?rest = "foldr (\<lambda>move acc. min (g (process_move ops board move color)) acc) ms PosInf"
  let ?v = "g (process_move ops board m color)"
  obtain s where s: "max_score n ops (process_move ops board m color) (opponent_color color) alpha beta (depth - 1) = Some s"
    and ws: "within_window alpha beta ?v s"
    using child[OF Cons.prems] by blast
  have best': "(if s < best then s else best) = min s best" by (auto simp: min_def)
  show ?case
  proof (cases "min s best \<le> alpha")
    case True
    have "min_loop n ops board color (m # ms) alpha beta best depth = Some (min s best)"
      using s True by (simp add: best')
    then show ?thesis using min_cut[OF Cons.prems ws True, of ?rest] by simp
  next
    case False
    then have lt: "alpha < min beta (min s best)" using Cons.prems by (simp add: not_le)
    from Cons.IH[OF lt, of "min s best"] obtain r where
      r: "min_loop n ops board color ms alpha (min beta (min s best)) (min s best) depth = Some r"
      and wr: "within_window alpha (min beta (min s best)) (min (min s best) ?rest) r"
      by blast
    have "min_loop n ops board color (m # ms) alpha beta best depth = Some r"
      using s r False by (simp add: best')
    then show ?thesis using min_go[OF Cons.prems ws False wr] by simp
  qed
qed

lemma max_loop_sound:
  assumes child: "\<And>b' a b. a < b \<Longrightarrow>
             \<exists>s. min_score n ops b' (opponent_color color) a b (depth - 1) = Some s \<and>
                 within_window a b (g b') s"
  shows "alpha < beta \<Longrightarrow>
         \<exists>r. max_loop n ops board color ms alpha beta best depth = Some r \<and>
             within_window alpha beta
               (max best (foldr (\<lambda>move acc. max (g (process_move ops board move color)) acc) ms NegInf)) r"
proof (induction ms arbitrary: alpha best)
  case Nil
  show ?case by (simp add: within_window_refl NegInf_bot')
next
  case (Cons m ms)
  let ?rest = "foldr (\<lambda>move acc. max (g (process_move ops board move color)) acc) ms NegInf"
  let ?v = "g (process_move ops board m color)"
  obtain s where s: "min_score n ops (process_move ops board m color) (opponent_color color) alpha beta (depth - 1) = Some s"
    and ws: "within_window alpha beta ?v s"
    using child[OF Cons.prems] by blast
  have best': "(if best < s then s else best) = max s best" by (auto simp: max_def)
  show ?case
  proof (cases "beta \<le> max s best")
    case True
    have "max_loop n ops board color (m # ms) alpha beta best depth = Some (max s best)"
      using s True by (simp add: best')
    then show ?thesis using max_cut[OF Cons.prems ws True, of ?rest] by simp
  next
    case False
    then have lt: "max alpha (max s best) < beta" using Cons.prems by (simp add: not_le)
    from Cons.IH[OF lt, of "max s best"] obtain r where
      r: "max_loop n ops board color ms (max alpha (max s best)) beta (max s best) depth = Some r"
      and wr: "within_window (max alpha (max s best)) beta (max (max s best) ?rest) r"
      by blast
    have "max_loop n ops board color (m # ms) alpha beta best depth = Some r"
      using s r False by (simp add: best')
    then show ?thesis using max_go[OF Cons.prems ws False wr] by simp
  qed
qed

lemma alpha_beta_sound:
  "d < n \<Longrightarrow> alpha < beta \<Longrightarrow>
     (\<exists>r. min_score n ops board color alpha beta (int d) = Some r \<and>
          within_window alpha beta (minimax_min ops board color d) r) \<and>
     (\<exists>r. max_score n ops board color alpha beta (int d) = Some r \<and>
          within_window alpha beta (minimax_max ops board color d) r)"
proof (induction d arbitrary: n board color alpha beta)
  case 0
  then obtain k where "n = Suc k" by (cases n) auto
  then show ?case by (simp add: within_window_refl)
next
  case (Suc d)
  then obtain k where n: "n = Suc k" and dk: "d < k" by (cases n) auto
  have d1: "int (Suc d) - 1 = int d" by simp
  have cmax: "\<And>b' a b. a < b \<Longrightarrow>
       \<exists>s. max_score k ops b' (opponent_color color) a b (int (Suc d) - 1) = Some s \<and>
           within_window a b (minimax_max ops b' (opponent_color color) d) s"
    unfolding d1 using Suc.IH[OF dk] by blast
  have cmin: "\<And>b' a b. a < b \<Longrightarrow>
       \<exists>s. min_score k ops b' (opponent_color color) a b (int (Suc d) - 1) = Some s \<and>
           within_window a b (minimax_min ops b' (opponent_color color) d) s"
    unfolding d1 using Suc.IH[OF dk] by blast
  have A: "\<exists>r. min_score n ops board color alpha beta (int (Suc d)) = Some r \<and>
          within_window alpha beta (minimax_min ops board color (Suc d)) r"
    using min_loop_sound[of k ops color "int (Suc d)" "\<lambda>b'. minimax_max ops b' (opponent_color color) d",
        OF cmax Suc.prems(2), of board "legal_moves ops board color" PosInf]
    by (simp add: n PosInf_top del: of_nat_Suc)
  have B: "\<exists>r. max_score n ops board color alpha beta (int (Suc d)) = Some r \<and>
          within_window alpha beta (minimax_max ops board color (Suc d)) r"
    using max_loop_sound[of k ops color "int (Suc d)" "\<lambda>b'. minimax_min ops b' (opponent_color color) d",
        OF cmin Suc.prems(2), of board "legal_moves ops board color" NegInf]
    by (simp add: n NegInf_bot del: of_nat_Suc)
  show ?case using A B by blast
qed

lemma min_score_exact:
  "d < n \<Longrightarrow> min_score n ops board color NegInf PosInf (int d) = Some (minimax_min ops board color d)"
  using alpha_beta_sound[of d n NegInf PosInf ops board color] within_full_window by fastforce

section \<open>Termination of the recursive steps\<close>

lemma min_loop_returns:
  assumes child: "\<And>b' a b. max_score n ops b' (opponent_color color) a b (depth - 1) \<noteq> None"
  shows "min_loop n ops board color ms alpha beta best depth \<noteq> None"
proof (induction ms arbitrary: beta best)
  case Nil
  show ?case by simp
next
  case (Cons m ms)
  obtain s where "max_score n ops (process_move ops board m color) (opponent_color color)
                    alpha beta (depth - 1) = Some s"
    using child by blast
  then show ?case using Cons.IH by (simp add: Let_def)
qed

lemma max_loop_returns:
  assumes child: "\<And>b' a b. min_score n ops b' (opponent_color color) a b (depth - 1) \<noteq> None"
  shows "max_loop n ops board color ms alpha beta best depth \<noteq> None"
proof (induction ms arbitrary: alpha best)
  case Nil
  show ?case by simp
next
  case (Cons m ms)
  obtain s where "min_score n ops (process_move ops board m color) (opponent_color color)
                    alpha beta (depth - 1) = Some s"
    using child by blast
  then show ?case using Cons.IH by (simp add: Let_def)
qed

lemma score_returns:
  "d < n \<Longrightarrow> min_score n ops board color alpha beta (int d) \<noteq> None \<and>
             max_score n ops board color alpha beta (int d) \<noteq> None"
proof (induction d arbitrary: n board color alpha beta)
  case 0
  then obtain k where "n = Suc k" by (cases n) auto
  then show ?case by simp
next
  case (Suc d)
  then obtain k where n: "n = Suc k" and dk: "d < k" by (cases n) auto
  have d1: "int (Suc d) - 1 = int d" by simp
  have "min_loop k ops board color (legal_moves ops board color) alpha beta PosInf (int (Suc d)) \<noteq> None"
    by (rule min_loop_returns) (simp add: d1 Suc.IH[OF dk] del: of_nat_Suc)
  moreover
  have "max_loop k ops board color (legal_moves ops board color) alpha beta NegInf (int (Suc d)) \<noteq> None"
    by (rule max_loop_returns) (simp add: d1 Suc.IH[OF dk] del: of_nat_Suc)
  ultimately show ?case by (simp add: n del: of_nat_Suc)
qed

lemma root_score_returns:
  assumes "1 \<le> self_depth_limit self" "nat (self_depth_limit self) \<le> n"
  shows "root_score n ops self move \<noteq> None"
proof -
  define d where "d = nat (self_depth_limit self - 1)"
  have "d < n" and "self_depth_limit self - 1 = int d"
    using assms by (auto simp: d_def)
  then show ?thesis
    using score_returns[of d n ops "process_move ops (self_board self) move (self_color self)"
        "self_opponent_color self" NegInf PosInf]
    by (simp add: root_score_def)
qed

section \<open>The loop of the move selection\<close>

lemma alpha_beta_loop_member:
  "alpha_beta_loop n ops self ms best fm = Some m \<Longrightarrow> m = fm \<or> m \<in> set ms"
proof (induction ms arbitrary: best fm)
  case Nil
  then show ?case by simp
next
  case (Cons a ms)
  then show ?case by (fastforce split: option.splits if_splits)
qed

lemma alpha_beta_loop_returns:
  "(\<And>m. m \<in> set ms \<Longrightarrow> root_score n ops self m \<noteq> None) \<Longrightarrow>
   alpha_beta_loop n ops self ms best fm \<noteq> None"
proof (induction ms arbitrary: best fm)
  case Nil
  show ?case by simp
next
  case (Cons a ms)
  obtain s where "root_score n ops self a = Some s" using Cons.prems[of a] by auto
  then show ?case using Cons.IH Cons.prems by simp
qed

lemma first_argmax_ge: "f m \<le> f (first_argmax f m ms)"
  by (induction ms arbitrary: m) (auto simp: Let_def)

lemma first_argmax_skip:
  assumes le: "f m' \<le> f m"
  shows "first_argmax f m (m' # ms) = first_argmax f m ms"
proof (cases ms)
  case Nil
  then show ?thesis using le by (auto simp: Let_def)
next
  case (Cons m'' ms'')
  define r' where "r' = first_argmax f m'' ms''"
  show ?thesis
  proof (cases "f m' < f r'")
    case True
    then show ?thesis using Cons by (simp add: Let_def r'_def)
  next
    case False
    then have "\<not> f m < f r'" using le by auto
    then show ?thesis using Cons False le by (auto simp: Let_def r'_def)
  qed
qed

lemma first_argmax_take:
  "f m < f m' \<Longrightarrow> first_argmax f m (m' # ms) = first_argmax f m' ms"
  using first_argmax_ge[of f m' ms] by (auto simp: Let_def)

lemma alpha_beta_loop_pick:
  assumes "\<And>m. m \<in> set ms \<Longrightarrow> root_score n ops self m = Some (f m)"
  shows "alpha_beta_loop n ops self ms (f fm) fm = Some (first_argmax f fm ms)"
  using assms
proof (induction ms arbitrary: fm)
  case Nil
  show ?case by simp
next
  case (Cons a ms)
  have a: "root_score n ops self a = Some (f a)" using Cons.prems by simp
  have rest: "\<And>m. m \<in> set ms \<Longrightarrow> root_score n ops self m = Some (f m)" using Cons.prems by simp
  show ?case
  proof (cases "f fm < f a")
    case True
    then show ?thesis using a Cons.IH[OF rest, of a] by (simp add: first_argmax_take del: first_argmax.simps)
  next
    case False
    then have "f a \<le> f fm" by simp
    then show ?thesis using a False Cons.IH[OF rest, of fm] by (simp add: first_argmax_skip del: first_argmax.simps)
  qed
qed

lemma alpha_beta_loop_start:
  assumes "\<And>m. m \<in> set (m0 # ms) \<Longrightarrow> root_score n ops self m = Some (f m)"
  shows "alpha_beta_loop n ops self (m0 # ms) NegInf m0 = Some (first_argmax f m0 ms)"
proof -
  have m0: "root_score n ops self m0 = Some (f m0)" using assms by simp
  have rest: "\<And>m. m \<in> set ms \<Longrightarrow> root_score n ops self m = Some (f m)" using assms by simp
  have pick: "alpha_beta_loop n ops self ms (f m0) m0 = Some (first_argmax f m0 ms)"
    by (rule alpha_beta_loop_pick[OF rest])
  show ?thesis
  proof (cases "NegInf < f m0")
    case True
    then show ?thesis using m0 pick by simp
  next
    case False
    then have "f m0 = NegInf" by (cases "f m0") auto
    then show ?thesis using m0 pick by simp
  qed
qed

lemma first_argmax_index:
  "\<exists>i < length (m # ms). first_argmax f m ms = (m # ms) ! i \<and>
       (\<forall>j < length (m # ms). f ((m # ms) ! j) \<le> f ((m # ms) ! i)) \<and>
       (\<forall>j < i. f ((m # ms) ! j) < f ((m # ms) ! i))"
proof (induction ms arbitrary: m)
  case Nil
  show ?case by simp
next
  case (Cons m' ms)
  define r where "r = first_argmax f m' ms"
  obtain i where i: "i < length (m' # ms)" "r = (m' # ms) ! i"
    and mx: "\<forall>j < length (m' # ms). f ((m' # ms) ! j) \<le> f ((m' # ms) ! i)"
    and fst: "\<forall>j < i. f ((m' # ms) ! j) < f ((m' # ms) ! i)"
    using Cons.IH[of m'] unfolding r_def by blast
  show ?case
  proof (cases "f m < f r")
    case True
    have 1: "first_argmax f m (m' # ms) = (m # m' # ms) ! Suc i"
      using True i by (simp add: Let_def r_def)
    have 2: "\<forall>j < length (m # m' # ms). f ((m # m' # ms) ! j) \<le> f ((m # m' # ms) ! Suc i)"
    proof (intro allI impI)
      fix j assume "j < length (m # m' # ms)"
      then show "f ((m # m' # ms) ! j) \<le> f ((m # m' # ms) ! Suc i)"
        using True i mx by (cases j) auto
    qed
    have 3: "\<forall>j < Suc i. f ((m # m' # ms) ! j) < f ((m # m' # ms) ! Suc i)"
    proof (intro allI impI)
      fix j assume "j < Suc i"
      then show "f ((m # m' # ms) ! j) < f ((m # m' # ms) ! Suc i)"
        using True i fst by (cases j) auto
    qed
    show ?thesis using 1 2 3 i(1) by (intro exI[of _ "Suc i"]) simp
  next
    case False
    have 1: "first_argmax f m (m' # ms) = (m # m' # ms) ! 0"
      using False by (simp add: Let_def r_def)
    have 2: "\<forall>j < length (m # m' # ms). f ((m # m' # ms) ! j) \<le> f ((m # m' # ms) ! 0)"
    proof (intro allI impI)
      fix j assume j: "j < length (m # m' # ms)"
      show "f ((m # m' # ms) ! j) \<le> f ((m # m' # ms) ! 0)"
      proof (cases j)
        case 0
        then show ?thesis by simp
      next
        case (Suc k)
        then have "f ((m' # ms) ! k) \<le> f r" using mx j i by simp
        then show ?thesis using False Suc by simp
      qed
    qed
    show ?thesis using 1 2 by (intro exI[of _ 0]) simp
  qed
qed

section \<open>Facts about the example position\<close>

lemma ex_legal_B: "legal_moves ex_ops ex_board ''B'' = [(0, 3), (6, 3)]"
  by (simp add: ex_ops_def)

lemma ex_legal_W: "legal_moves ex_ops ex_board ''W'' = []"
  by (simp add: ex_ops_def)

section \<open>The selected move\<close>

lemma root_score_exact:
  assumes "1 \<le> d" "d \<le> n" "self_depth_limit self = int d"
  shows "root_score n ops self move =
         Some (minimax_min ops (process_move ops (self_board self) move (self_color self))
                 (self_opponent_color self) (d - 1))"
proof -
  have lt: "d - 1 < n" using assms(1,2) by simp
  have eq: "self_depth_limit self - 1 = int (d - 1)" using assms(1,3) by simp
  show ?thesis unfolding root_score_def Let_def eq by (rule min_score_exact[OF lt])
qed

lemma alpha_beta_min_max_is_minimax:
  assumes "legal_moves ops board color \<noteq> []" and "1 \<le> d" and "d \<le> n"
    and "GameStrategy_init (int d) board color = Inr self"
  shows "alpha_beta_min_max n ops self = map_option Inr (minimax_move ops board color d)"
proof -
  have self: "self_depth_limit self = int d" "self_board self = board" "self_color self = color"
    "self_opponent_color self = opponent_color color"
    using assms(4) by (auto simp: GameStrategy_init_def)
  obtain m0 ms where ms: "legal_moves ops board color = m0 # ms"
    using assms(1) by (cases "legal_moves ops board color") auto
  define f where "f = (\<lambda>move. minimax_min ops (process_move ops board move color)
                                  (opponent_color color) (d - 1))"
  have "\<And>m. root_score n ops self m = Some (f m)"
    using root_score_exact[OF assms(2,3) self(1)] by (simp add: f_def self)
  then have "alpha_beta_loop n ops self (m0 # ms) NegInf m0 = Some (first_argmax f m0 ms)"
    by (intro alpha_beta_loop_start) simp
  then show ?thesis
    by (simp add: alpha_beta_min_max_def minimax_move_def self ms f_def)
qed

text \<open>
  Claim C2. For a root position with at least one legal move and a depth limit \<open>d \<ge> 1\<close>,
  the move returned by \<open>alpha_beta_min_max\<close> (once the nesting bound reaches \<open>d\<close>) is the
  move of the unpruned search \<open>minimax_move\<close> to the same depth: same leaf evaluation,
  same alternation of sides, same values for nodes without moves, same earliest-first
  choice among equal scores. Pruning never changes the selected move.
\<close>

theorem pruned_search_selects_minimax_move:
  assumes "legal_moves ops board color \<noteq> []" and "1 \<le> d" and "d \<le> n"
    and "GameStrategy_init (int d) board color = Inr self"
  shows "alpha_beta_min_max n ops self = map_option Inr (minimax_move ops board color d)"
  using assms by (rule alpha_beta_min_max_is_minimax)

theorem pruned_search_selects_minimax_move_witness:
  "legal_moves ex_ops ex_board ''B'' \<noteq> [] \<and> (1::nat) \<le> 2 \<and> (2::nat) \<le> 2 \<and>
   GameStrategy_init (int 2) ex_board ''B'' =
     Inr \<lparr>self_depth_limit = 2, self_board = ex_board, self_color = ''B'',
          self_opponent_color = ''W''\<rparr> \<and>
   alpha_beta_min_max 2 ex_ops
     \<lparr>self_depth_limit = 2, self_board = ex_board, self_color = ''B'',
      self_opponent_color = ''W''\<rparr> = map_option Inr (minimax_move ex_ops ex_board ''B'' 2)"
proof -
  have 1: "legal_moves ex_ops ex_board ''B'' \<noteq> []" by (simp add: ex_legal_B)
  have 2: "GameStrategy_init (int 2) ex_board ''B'' =
     Inr \<lparr>self_depth_limit = 2, self_board = ex_board, self_color = ''B'',
          self_opponent_color = ''W''\<rparr>"
    by (simp add: GameStrategy_init_def opponent_color_def)
  have 3: "alpha_beta_min_max 2 ex_ops
     \<lparr>self_depth_limit = 2, self_board = ex_board, self_color = ''B'',
      self_opponent_color = ''W''\<rparr> = map_option Inr (minimax_move ex_ops ex_board ''B'' 2)"
    by (rule pruned_search_selects_minimax_move[OF 1 _ _ 2]) simp_all
  have 4: "(1::nat) \<le> 2" "(2::nat) \<le> 2" by simp_all
  show ?thesis using 1 2 3 4 by blast
qed

section \<open>The claims on single calls\<close>

text \<open>
  Claim C7. When the board reports no legal move for the side, and the remaining depth is
  at least 1, \<^verbatim>\<open>_min_score\<close> returns \<open>PosInf\<close>, the value its \<open>best_score\<close> starts with, and
  \<^verbatim>\<open>_max_score\<close> returns \<open>NegInf\<close>, whatever the position, the side and the window. One
  unit of nesting is enough: no recursive call is made.
\<close>

theorem empty_enumeration_returns_initial_bound:
  assumes "legal_moves ops board color = []" and "1 \<le> depth"
  shows "min_score (Suc n) ops board color alpha beta depth = Some PosInf \<and>
         max_score (Suc n) ops board color alpha beta depth = Some NegInf"
  using assms by simp

theorem empty_enumeration_returns_initial_bound_witness:
  "legal_moves ex_ops ex_board ''W'' = [] \<and> (1::int) \<le> 1 \<and>
   min_score (Suc 0) ex_ops ex_board ''W'' (Fin 3) (Fin 5) 1 = Some PosInf \<and>
   max_score (Suc 0) ex_ops ex_board ''W'' (Fin 3) (Fin 5) 1 = Some NegInf"
proof -
  have 1: "(1::int) \<le> 1" by simp
  show ?thesis
    using empty_enumeration_returns_initial_bound[OF ex_legal_W 1, of 0 "Fin 3" "Fin 5"]
      ex_legal_W 1
    by blast
qed

text \<open>
  Claim C3, as amended. Constructing the engine never fails: for every depth limit, also
  zero and the negative ones, \<^verbatim>\<open>__init__\<close> returns an engine holding the given depth limit
  unchanged. The claim as stated (construction fails with an invalid-argument error for a
  depth limit at most 0) is refuted at depth limit 0 below.
\<close>

theorem init_accepts_every_depth_limit:
  "GameStrategy_init depth_limit board color =
     Inr \<lparr>self_depth_limit = depth_limit, self_board = board, self_color = color,
          self_opponent_color = opponent_color color\<rparr> \<and>
   \<not> isl (GameStrategy_init depth_limit board color)"
  by (simp add: GameStrategy_init_def)

theorem init_rejects_nonpositive_depth_counterexample:
  "(0::int) \<le> 0 \<and>
   GameStrategy_init 0 ex_board ''B'' =
     Inr \<lparr>self_depth_limit = 0, self_board = ex_board, self_color = ''B'',
          self_opponent_color = ''W''\<rparr> \<and>
   GameStrategy_init 0 ex_board ''B'' \<noteq> Inl InvalidArgument"
  by (simp add: GameStrategy_init_def opponent_color_def)

text \<open>
  Claim C4, as amended. When the board reports no legal move for the engine's side at the
  root, \<^verbatim>\<open>alpha_beta_min_max\<close> fails with the \<^verbatim>\<open>IndexError\<close> of \<^verbatim>\<open>legal_moves[0]\<close>,
  before any search (for every nesting bound, and whatever the depth limit), and returns
  no move. The failure is the generic one of list indexing: there is no condition of its
  own for "no legal moves", which refutes the claim as stated.
\<close>

theorem no_legal_moves_raises_index_error:
  assumes "legal_moves ops (self_board self) (self_color self) = []"
  shows "alpha_beta_min_max n ops self = Some (Inl IndexError)"
  using assms by (simp add: alpha_beta_min_max_def)

theorem no_legal_moves_raises_index_error_witness:
  "legal_moves ex_ops ex_board ''W'' = [] \<and>
   alpha_beta_min_max 4 ex_ops
     \<lparr>self_depth_limit = 4, self_board = ex_board, self_color = ''W'',
      self_opponent_color = ''B''\<rparr> = Some (Inl IndexError)"
  using no_legal_moves_raises_index_error[of ex_ops
      "\<lparr>self_depth_limit = 4, self_board = ex_board, self_color = ''W'',
        self_opponent_color = ''B''\<rparr>" 4] ex_legal_W
  by simp

theorem no_legal_moves_illegal_state_counterexample:
  "legal_moves ex_ops ex_board ''W'' = [] \<and>
   alpha_beta_min_max 4 ex_ops
     \<lparr>self_depth_limit = 4, self_board = ex_board, self_color = ''W'',
      self_opponent_color = ''B''\<rparr> \<noteq> Some (Inl IllegalState)"
  using ex_legal_W by (simp add: alpha_beta_min_max_def)

text \<open>
  Claim C10. \<^verbatim>\<open>make_move\<close> builds the engine with the depth limit 4, whatever the board
  and the colour, and returns what \<^verbatim>\<open>alpha_beta_min_max\<close> returns for that engine; the
  caller has no parameter for the depth. So, when there is a legal move (and the nesting
  bound is at least 4), the move it returns is the one of the unpruned search to 4 plies.
\<close>

theorem make_move_searches_four_plies:
  "make_move n ops the_board color =
     alpha_beta_min_max n ops
       \<lparr>self_depth_limit = 4, self_board = the_board, self_color = color,
        self_opponent_color = opponent_color color\<rparr> \<and>
   (legal_moves ops the_board color \<noteq> [] \<and> 4 \<le> n \<longrightarrow>
      make_move n ops the_board color = map_option Inr (minimax_move ops the_board color 4))"
proof -
  let ?g = "\<lparr>self_depth_limit = 4, self_board = the_board, self_color = color,
        self_opponent_color = opponent_color color\<rparr>"
  have A: "make_move n ops the_board color = alpha_beta_min_max n ops ?g"
    by (simp add: make_move_def GameStrategy_init_def)
  have B: "legal_moves ops the_board color \<noteq> [] \<and> 4 \<le> n \<longrightarrow>
      make_move n ops the_board color = map_option Inr (minimax_move ops the_board color 4)"
  proof
    assume h: "legal_moves ops the_board color \<noteq> [] \<and> 4 \<le> n"
    have g: "GameStrategy_init (int 4) the_board color = Inr ?g"
      by (simp add: GameStrategy_init_def)
    have "alpha_beta_min_max n ops ?g = map_option Inr (minimax_move ops the_board color 4)"
      by (rule alpha_beta_min_max_is_minimax[OF _ _ _ g]) (simp_all add: h)
    then show "make_move n ops the_board color = map_option Inr (minimax_move ops the_board color 4)"
      using A by simp
  qed
  show ?thesis using A B by blast
qed

theorem make_move_searches_four_plies_witness:
  "legal_moves ex_ops ex_board ''B'' \<noteq> [] \<and> (4::nat) \<le> 4 \<and>
   make_move 4 ex_ops ex_board ''B'' =
     map_option Inr (minimax_move ex_ops ex_board ''B'' 4)"
proof -
  have 1: "legal_moves ex_ops ex_board ''B'' \<noteq> [] \<and> (4::nat) \<le> 4" by (simp add: ex_legal_B)
  have "make_move 4 ex_ops ex_board ''B'' = map_option Inr (minimax_move ex_ops ex_board ''B'' 4)"
    using make_move_searches_four_plies[of 4 ex_ops ex_board "''B''", THEN conjunct2] 1 by blast
  then show ?thesis using 1 by blast
qed

lemma ex_after_03: "cost_compute ex_ops (process_move ex_ops ex_board (0, 3) ''B'') ''B'' = 4"
  by code_simp

lemma ex_after_63: "cost_compute ex_ops (process_move ex_ops ex_board (6, 3) ''B'') ''B'' = 0"
  by code_simp

lemma ex_depth_one: "alpha_beta_min_max 1 ex_ops
     \<lparr>self_depth_limit = 1, self_board = ex_board, self_color = ''B'',
      self_opponent_color = ''W''\<rparr> = Some (Inr (6, 3))"
  by code_simp

text \<open>
  Claim C1. With depth limit 1 the leaf evaluation is made for the side passed to
  \<^verbatim>\<open>_min_score\<close>, which is the opponent, so the root maximises the opponent's count minus
  the engine's. In the example position Black's move \<open>(0, 3)\<close> leaves a material difference
  of 4 for Black and \<open>(6, 3)\<close> leaves 0; the engine returns \<open>(6, 3)\<close>, not the move with the
  greatest material difference for its own side.
\<close>

theorem depth_one_selects_least_material:
  "GameStrategy_init 1 ex_board ''B'' =
     Inr \<lparr>self_depth_limit = 1, self_board = ex_board, self_color = ''B'',
          self_opponent_color = ''W''\<rparr> \<and>
   legal_moves ex_ops ex_board ''B'' = [(0, 3), (6, 3)] \<and>
   cost_compute ex_ops (process_move ex_ops ex_board (0, 3) ''B'') ''B'' = 4 \<and>
   cost_compute ex_ops (process_move ex_ops ex_board (6, 3) ''B'') ''B'' = 0 \<and>
   alpha_beta_min_max 1 ex_ops
     \<lparr>self_depth_limit = 1, self_board = ex_board, self_color = ''B'',
      self_opponent_color = ''W''\<rparr> = Some (Inr (6, 3))"
proof -
  have "GameStrategy_init 1 ex_board ''B'' =
     Inr \<lparr>self_depth_limit = 1, self_board = ex_board, self_color = ''B'',
          self_opponent_color = ''W''\<rparr>"
    by (simp add: GameStrategy_init_def opponent_color_def)
  then show ?thesis using ex_legal_B ex_after_03 ex_after_63 ex_depth_one by blast
qed

section \<open>The claims on the move selection\<close>

lemma root_scores_exist:
  assumes "1 \<le> self_depth_limit self" "nat (self_depth_limit self) \<le> n"
  shows "\<exists>ss. map (root_score n ops self) ms = map Some ss"
proof (induction ms)
  case Nil
  show ?case by simp
next
  case (Cons m ms)
  obtain s where s: "root_score n ops self m = Some s"
    using root_score_returns[OF assms, of ops m] by auto
  obtain ss where "map (root_score n ops self) ms = map Some ss" using Cons.IH by blast
  then have "map (root_score n ops self) (m # ms) = map Some (s # ss)" using s by simp
  then show ?case by blast
qed

lemma alpha_beta_min_max_returns:
  assumes "1 \<le> self_depth_limit self" "nat (self_depth_limit self) \<le> n"
  shows "alpha_beta_min_max n ops self \<noteq> None"
proof (cases "legal_moves ops (self_board self) (self_color self)")
  case Nil
  then show ?thesis by (simp add: alpha_beta_min_max_def)
next
  case (Cons m0 ms)
  have "alpha_beta_loop n ops self (m0 # ms) NegInf m0 \<noteq> None"
    by (rule alpha_beta_loop_returns) (rule root_score_returns[OF assms])
  then show ?thesis using Cons by (simp add: alpha_beta_min_max_def)
qed

lemma alpha_beta_min_max_member:
  assumes "legal_moves ops (self_board self) (self_color self) \<noteq> []"
    and "alpha_beta_min_max n ops self = Some r"
  shows "\<exists>m \<in> set (legal_moves ops (self_board self) (self_color self)). r = Inr m"
proof -
  obtain m0 ms where ms: "legal_moves ops (self_board self) (self_color self) = m0 # ms"
    using assms(1) by (cases "legal_moves ops (self_board self) (self_color self)") auto
  then obtain m where m: "alpha_beta_loop n ops self (m0 # ms) NegInf m0 = Some m" and r: "r = Inr m"
    using assms(2) by (auto simp: alpha_beta_min_max_def)
  have "m = m0 \<or> m \<in> set (m0 # ms)" by (rule alpha_beta_loop_member[OF m])
  then show ?thesis using r ms by auto
qed

text \<open>
  Claim C6. When the enumeration of legal moves at the root is not empty, whatever
  \<^verbatim>\<open>alpha_beta_min_max\<close> returns is a move, and it is one of the enumerated moves; and
  with a depth limit of at least 1 it does return, as soon as the nesting bound reaches
  the depth limit.
\<close>

theorem returned_move_is_legal:
  assumes "legal_moves ops (self_board self) (self_color self) \<noteq> []"
  shows "(\<forall>r. alpha_beta_min_max n ops self = Some r \<longrightarrow>
            (\<exists>m \<in> set (legal_moves ops (self_board self) (self_color self)). r = Inr m)) \<and>
         (1 \<le> self_depth_limit self \<and> nat (self_depth_limit self) \<le> n \<longrightarrow>
            alpha_beta_min_max n ops self \<noteq> None)"
  using alpha_beta_min_max_member[OF assms] alpha_beta_min_max_returns by blast

theorem returned_move_is_legal_witness:
  "legal_moves ex_ops ex_board ''B'' \<noteq> [] \<and>
   (\<exists>m. alpha_beta_min_max 2 ex_ops
           \<lparr>self_depth_limit = 2, self_board = ex_board, self_color = ''B'',
            self_opponent_color = ''W''\<rparr> = Some (Inr m) \<and>
        m \<in> set (legal_moves ex_ops ex_board ''B''))"
proof -
  let ?g = "\<lparr>self_depth_limit = 2, self_board = ex_board, self_color = ''B'',
             self_opponent_color = ''W''\<rparr>"
  have 1: "legal_moves ex_ops (self_board ?g) (self_color ?g) \<noteq> []"
    by (simp add: ex_legal_B)
  have 2: "1 \<le> self_depth_limit ?g \<and> nat (self_depth_limit ?g) \<le> 2" by simp
  have 3: "self_board ?g = ex_board" "self_color ?g = ''B''" by simp_all
  obtain r where r: "alpha_beta_min_max 2 ex_ops ?g = Some r"
    using returned_move_is_legal[OF 1, of 2] 2 by blast
  then obtain m where "m \<in> set (legal_moves ex_ops (self_board ?g) (self_color ?g))" "r = Inr m"
    using returned_move_is_legal[OF 1, of 2] by blast
  then show ?thesis using r 1 unfolding 3 by blast
qed

lemma alpha_beta_min_max_first_best:
  assumes ms: "legal_moves ops (self_board self) (self_color self) = ms" and ne: "ms \<noteq> []"
    and ss: "map (root_score n ops self) ms = map Some ss"
  shows "\<exists>i < length ms. alpha_beta_min_max n ops self = Some (Inr (ms ! i)) \<and>
            (\<forall>j < length ms. ss ! j \<le> ss ! i) \<and> (\<forall>j < i. ss ! j < ss ! i)"
proof -
  obtain m0 rest where m0: "ms = m0 # rest" using ne by (cases ms) auto
  have len: "length ss = length ms" using ss by (metis length_map)
  define f where "f = (\<lambda>m. the (root_score n ops self m))"
  have nth: "\<And>j. j < length ms \<Longrightarrow> root_score n ops self (ms ! j) = Some (ss ! j)"
  proof -
    fix j assume j: "j < length ms"
    have "map (root_score n ops self) ms ! j = map Some ss ! j" using ss by simp
    then show "root_score n ops self (ms ! j) = Some (ss ! j)" using j len by simp
  qed
  have fss: "\<And>j. j < length ms \<Longrightarrow> f (ms ! j) = ss ! j" using nth by (simp add: f_def)
  have "\<And>m. m \<in> set ms \<Longrightarrow> root_score n ops self m = Some (f m)"
  proof -
    fix m assume "m \<in> set ms"
    then obtain j where "j < length ms" "ms ! j = m" by (auto simp: in_set_conv_nth)
    then show "root_score n ops self m = Some (f m)" using nth[of j] by (simp add: f_def)
  qed
  then have "alpha_beta_loop n ops self (m0 # rest) NegInf m0 = Some (first_argmax f m0 rest)"
    unfolding m0 by (rule alpha_beta_loop_start)
  then have res: "alpha_beta_min_max n ops self = Some (Inr (first_argmax f m0 rest))"
    using ms m0 by (simp add: alpha_beta_min_max_def)
  obtain i where i: "i < length ms" "first_argmax f m0 rest = ms ! i"
    and mx: "\<forall>j < length ms. f (ms ! j) \<le> f (ms ! i)"
    and fst: "\<forall>j < i. f (ms ! j) < f (ms ! i)"
    using first_argmax_index[of m0 rest f] unfolding m0 by blast
  have "\<forall>j < length ms. ss ! j \<le> ss ! i" using mx fss i(1) by simp
  moreover have "\<forall>j < i. ss ! j < ss ! i" using fst fss i(1) by simp
  ultimately show ?thesis using res i by auto
qed

lemma alpha_beta_loop_step:
  assumes "root_score n ops self move = Some s"
  shows "alpha_beta_loop n ops self (move # moves) best fm =
           (if best < s then alpha_beta_loop n ops self moves s move
            else alpha_beta_loop n ops self moves best fm)"
  using assms by simp

lemma ex_root_score_03: "root_score 2 ex_ops
     \<lparr>self_depth_limit = 2, self_board = ex_board, self_color = ''B'',
      self_opponent_color = ''W''\<rparr> (0, 3) = Some PosInf"
  by code_simp

lemma ex_root_score_63: "root_score 2 ex_ops
     \<lparr>self_depth_limit = 2, self_board = ex_board, self_color = ''B'',
      self_opponent_color = ''W''\<rparr> (6, 3) = Some PosInf"
  by code_simp

text \<open>
  Claim C5. In the loop of \<^verbatim>\<open>alpha_beta_min_max\<close> the candidate is replaced exactly when
  the score of the move is strictly greater than the best score so far. Hence, when the
  scores of the legal moves are \<open>ss\<close>, the returned move is the one at the first index
  whose score is greatest: no score is greater, and every earlier score is strictly
  smaller. With a depth limit of at least 1 every legal move does get a score, as soon as
  the nesting bound reaches the depth limit.
\<close>

theorem strict_improvement_keeps_first_best:
  assumes "legal_moves ops (self_board self) (self_color self) = ms" and "ms \<noteq> []"
  shows "(\<forall>move moves best fm s. root_score n ops self move = Some s \<longrightarrow>
            alpha_beta_loop n ops self (move # moves) best fm =
              (if best < s then alpha_beta_loop n ops self moves s move
               else alpha_beta_loop n ops self moves best fm)) \<and>
         (\<forall>ss. map (root_score n ops self) ms = map Some ss \<longrightarrow>
            (\<exists>i < length ms. alpha_beta_min_max n ops self = Some (Inr (ms ! i)) \<and>
               (\<forall>j < length ms. ss ! j \<le> ss ! i) \<and> (\<forall>j < i. ss ! j < ss ! i))) \<and>
         (1 \<le> self_depth_limit self \<and> nat (self_depth_limit self) \<le> n \<longrightarrow>
            (\<exists>ss. map (root_score n ops self) ms = map Some ss))"
  using alpha_beta_loop_step[of n ops self] alpha_beta_min_max_first_best[OF assms]
    root_scores_exist[of self n ops ms]
  by blast

theorem strict_improvement_keeps_first_best_witness:
  "legal_moves ex_ops ex_board ''B'' = [(0, 3), (6, 3)] \<and>
   root_score 2 ex_ops
     \<lparr>self_depth_limit = 2, self_board = ex_board, self_color = ''B'',
      self_opponent_color = ''W''\<rparr> (0, 3) = Some PosInf \<and>
   root_score 2 ex_ops
     \<lparr>self_depth_limit = 2, self_board = ex_board, self_color = ''B'',
      self_opponent_color = ''W''\<rparr> (6, 3) = Some PosInf \<and>
   alpha_beta_min_max 2 ex_ops
     \<lparr>self_depth_limit = 2, self_board = ex_board, self_color = ''B'',
      self_opponent_color = ''W''\<rparr> = Some (Inr (0, 3))"
proof -
  let ?g = "\<lparr>self_depth_limit = 2, self_board = ex_board, self_color = ''B'',
             self_opponent_color = ''W''\<rparr>"
  let ?ms = "[(0, 3), (6, 3)] :: (nat \<times> nat) list"
  have 1: "legal_moves ex_ops (self_board ?g) (self_color ?g) = ?ms" by (simp add: ex_legal_B)
  have 2: "?ms \<noteq> []" by simp
  have 3: "map (root_score 2 ex_ops ?g) ?ms = map Some [PosInf, PosInf]"
    using ex_root_score_03 ex_root_score_63 by simp
  note all = strict_improvement_keeps_first_best[OF 1 2, of 2]
  note part = all[THEN conjunct2, THEN conjunct1, rule_format, OF 3]
  obtain i where i: "i < length ?ms"
    and r: "alpha_beta_min_max 2 ex_ops ?g = Some (Inr (?ms ! i))"
    and fst: "\<forall>j < i. [PosInf, PosInf] ! j < [PosInf, PosInf] ! i"
    using part by blast
  have "i = 0"
  proof (rule ccontr)
    assume "i \<noteq> 0"
    then have "i = 1" using i by simp
    then have "[PosInf, PosInf] ! 0 < [PosInf, PosInf] ! (1::nat)" using fst by blast
    then show False by simp
  qed
  then have "alpha_beta_min_max 2 ex_ops ?g = Some (Inr (0, 3))" using r by simp
  then show ?thesis using ex_legal_B ex_root_score_03 ex_root_score_63 by blast
qed

text \<open>
  Claim C9. Every recursive call passes \<^verbatim>\<open>depth-1\<close>, so a call with remaining depth
  \<open>depth \<ge> 0\<close> nests at most \<open>depth + 1\<close> calls: with a nesting bound above \<open>depth\<close> both
  steps return. A call with remaining depth 0 returns the static evaluation, and a call
  whose enumeration of moves is empty returns its initial bound, each within a single unit
  of nesting, so without a recursive call. A call that has a move to visit does call the
  other step, for the position after the first move and with \<open>depth - 1\<close>: when that
  call does not return, neither does the caller. Hence \<^verbatim>\<open>alpha_beta_min_max\<close> returns
  for every depth limit of at least 1.
\<close>

theorem search_terminates:
  "(0 \<le> depth \<and> nat depth < n \<longrightarrow>
      min_score n ops board color alpha beta depth \<noteq> None \<and>
      max_score n ops board color alpha beta depth \<noteq> None) \<and>
   min_score (Suc 0) ops board color alpha beta 0 = Some (Fin (cost_compute ops board color)) \<and>
   max_score (Suc 0) ops board color alpha beta 0 = Some (Fin (cost_compute ops board color)) \<and>
   (legal_moves ops board color = [] \<and> depth \<noteq> 0 \<longrightarrow>
      min_score (Suc 0) ops board color alpha beta depth = Some PosInf \<and>
      max_score (Suc 0) ops board color alpha beta depth = Some NegInf) \<and>
   (depth \<noteq> 0 \<and> legal_moves ops board color = move # moves \<and>
    max_score n ops (process_move ops board move color) (opponent_color color) alpha beta
      (depth - 1) = None \<longrightarrow>
      min_score (Suc n) ops board color alpha beta depth = None) \<and>
   (depth \<noteq> 0 \<and> legal_moves ops board color = move # moves \<and>
    min_score n ops (process_move ops board move color) (opponent_color color) alpha beta
      (depth - 1) = None \<longrightarrow>
      max_score (Suc n) ops board color alpha beta depth = None) \<and>
   (1 \<le> self_depth_limit self \<and> nat (self_depth_limit self) \<le> n \<longrightarrow>
      alpha_beta_min_max n ops self \<noteq> None)"
proof -
  have A: "0 \<le> depth \<and> nat depth < n \<longrightarrow>
      min_score n ops board color alpha beta depth \<noteq> None \<and>
      max_score n ops board color alpha beta depth \<noteq> None"
  proof
    assume h: "0 \<le> depth \<and> nat depth < n"
    then have "int (nat depth) = depth" by simp
    then show "min_score n ops board color alpha beta depth \<noteq> None \<and>
      max_score n ops board color alpha beta depth \<noteq> None"
      using score_returns[of "nat depth" n ops board color alpha beta] h by metis
  qed
  have B: "min_score (Suc 0) ops board color alpha beta 0 = Some (Fin (cost_compute ops board color))"
    "max_score (Suc 0) ops board color alpha beta 0 = Some (Fin (cost_compute ops board color))"
    by simp_all
  have C: "legal_moves ops board color = [] \<and> depth \<noteq> 0 \<longrightarrow>
      min_score (Suc 0) ops board color alpha beta depth = Some PosInf \<and>
      max_score (Suc 0) ops board color alpha beta depth = Some NegInf"
    by simp
  have D: "1 \<le> self_depth_limit self \<and> nat (self_depth_limit self) \<le> n \<longrightarrow>
      alpha_beta_min_max n ops self \<noteq> None"
    using alpha_beta_min_max_returns by blast
  have E: "depth \<noteq> 0 \<and> legal_moves ops board color = move # moves \<and>
    max_score n ops (process_move ops board move color) (opponent_color color) alpha beta
      (depth - 1) = None \<longrightarrow>
      min_score (Suc n) ops board color alpha beta depth = None"
    by simp
  have F: "depth \<noteq> 0 \<and> legal_moves ops board color = move # moves \<and>
    min_score n ops (process_move ops board move color) (opponent_color color) alpha beta
      (depth - 1) = None \<longrightarrow>
      max_score (Suc n) ops board color alpha beta depth = None"
    by simp
  show ?thesis using A B C D E F by blast
qed

theorem search_terminates_witness:
  "min_score 4 ex_ops ex_board ''B'' (Fin 0) (Fin 1) 3 \<noteq> None \<and>
   max_score 4 ex_ops ex_board ''B'' (Fin 0) (Fin 1) 3 \<noteq> None \<and>
   min_score (Suc 0) ex_ops ex_board ''W'' (Fin 0) (Fin 1) 3 = Some PosInf \<and>
   min_score (Suc 0) ex_ops ex_board ''B'' (Fin 0) (Fin 1) 3 = None \<and>
   max_score (Suc 0) ex_ops ex_board ''B'' (Fin 0) (Fin 1) 3 = None \<and>
   alpha_beta_min_max 4 ex_ops
     \<lparr>self_depth_limit = 4, self_board = ex_board, self_color = ''B'',
      self_opponent_color = ''W''\<rparr> \<noteq> None"
proof -
  let ?g = "\<lparr>self_depth_limit = 4, self_board = ex_board, self_color = ''B'',
             self_opponent_color = ''W''\<rparr>"
  have 1: "(0::int) \<le> 3 \<and> nat 3 < (4::nat)" by simp
  have 2: "1 \<le> self_depth_limit ?g \<and> nat (self_depth_limit ?g) \<le> 4" by simp
  have 3: "legal_moves ex_ops ex_board ''W'' = [] \<and> (3::int) \<noteq> 0" using ex_legal_W by simp
  have 4: "(3::int) \<noteq> 0 \<and> legal_moves ex_ops ex_board ''B'' = (0, 3) # [(6, 3)] \<and>
     max_score 0 ex_ops (process_move ex_ops ex_board (0, 3) ''B'') (opponent_color ''B'')
       (Fin 0) (Fin 1) (3 - 1) = None"
    using ex_legal_B by simp
  have 5: "(3::int) \<noteq> 0 \<and> legal_moves ex_ops ex_board ''B'' = (0, 3) # [(6, 3)] \<and>
     min_score 0 ex_ops (process_move ex_ops ex_board (0, 3) ''B'') (opponent_color ''B'')
       (Fin 0) (Fin 1) (3 - 1) = None"
    using ex_legal_B by simp
  note a = search_terminates[where depth = 3 and n = 4 and ops = ex_ops and board = ex_board
      and color = "''B''" and alpha = "Fin 0" and beta = "Fin 1" and self = ?g]
  note b = search_terminates[where depth = 3 and n = 4 and ops = ex_ops and board = ex_board
      and color = "''W''" and alpha = "Fin 0" and beta = "Fin 1" and self = ?g]
  note c = search_terminates[where depth = 3 and n = 0 and ops = ex_ops and board = ex_board
      and color = "''B''" and alpha = "Fin 0" and beta = "Fin 1" and self = ?g
      and move = "(0, 3)" and moves = "[(6, 3)]"]
  have a1: "min_score 4 ex_ops ex_board ''B'' (Fin 0) (Fin 1) 3 \<noteq> None \<and>
            max_score 4 ex_ops ex_board ''B'' (Fin 0) (Fin 1) 3 \<noteq> None"
    using a 1 by blast
  have a2: "alpha_beta_min_max 4 ex_ops ?g \<noteq> None" using a 2 by blast
  have b1: "min_score (Suc 0) ex_ops ex_board ''W'' (Fin 0) (Fin 1) 3 = Some PosInf"
    using b 3 by blast
  have c1: "min_score (Suc 0) ex_ops ex_board ''B'' (Fin 0) (Fin 1) 3 = None"
    using c 4 by blast
  have c2: "max_score (Suc 0) ex_ops ex_board ''B'' (Fin 0) (Fin 1) 3 = None"
    using c 5 by blast
  show ?thesis using a1 a2 b1 c1 c2 by blast
qed

section \<open>The search changes no board it was given\<close>

lemma copy_then_move:
  assumes "a < length h"
  shows "process_move_at ops (fst (deepcopy h a)) (snd (deepcopy h a)) m c =
           h @ [process_move ops (h ! a) m c]"
    and "snd (deepcopy h a) = length h"
  using assms by (simp_all add: deepcopy_def process_move_at_def nth_append)

lemma min_loop_st_frame:
  assumes child: "\<And>h t a b. t < length h \<Longrightarrow>
      (case max_score_st n ops h t (opponent_color color) a b (depth - 1) of
         None \<Rightarrow> max_score n ops (h ! t) (opponent_color color) a b (depth - 1) = None
       | Some (s, h') \<Rightarrow>
           max_score n ops (h ! t) (opponent_color color) a b (depth - 1) = Some s \<and>
           (\<exists>zs. h' = h @ zs))"
  shows "board < length h \<Longrightarrow>
      (case min_loop_st n ops h board color ms alpha beta best depth of
         None \<Rightarrow> min_loop n ops (h ! board) color ms alpha beta best depth = None
       | Some (s, h') \<Rightarrow>
           min_loop n ops (h ! board) color ms alpha beta best depth = Some s \<and>
           (\<exists>zs. h' = h @ zs))"
proof (induction ms arbitrary: h beta best)
  case Nil
  show ?case by simp
next
  case (Cons m ms)
  define h2 where "h2 = h @ [process_move ops (h ! board) m color]"
  define t where "t = length h"
  have t: "t < length h2" and h2t: "h2 ! t = process_move ops (h ! board) m color"
    by (simp_all add: h2_def t_def)
  have unfold_st: "min_loop_st n ops h board color (m # ms) alpha beta best depth =
      (case max_score_st n ops h2 t (opponent_color color) alpha beta (depth - 1) of
         None \<Rightarrow> None
       | Some (score, h3) \<Rightarrow>
           (let best' = (if score < best then score else best) in
            if best' \<le> alpha then Some (best', h3)
            else min_loop_st n ops h3 board color ms alpha (min beta best') best' depth))"
    using Cons.prems
    by (simp add: deepcopy_def process_move_at_def nth_append h2_def t_def)
  show ?case
  proof (cases "max_score_st n ops h2 t (opponent_color color) alpha beta (depth - 1)")
    case None
    then have "max_score n ops (h2 ! t) (opponent_color color) alpha beta (depth - 1) = None"
      using child[OF t, of alpha beta] by simp
    then show ?thesis using None unfold_st by (simp add: h2t)
  next
    case (Some p)
    obtain s h3 where p: "p = (s, h3)" by (cases p)
    have pure: "max_score n ops (h2 ! t) (opponent_color color) alpha beta (depth - 1) = Some s"
      and ext: "\<exists>zs. h3 = h2 @ zs"
      using child[OF t, of alpha beta] Some p by simp_all
    then obtain zs where zs: "h3 = h @ (process_move ops (h ! board) m color # zs)"
      by (auto simp: h2_def)
    have b3: "board < length h3" and same: "h3 ! board = h ! board"
      using Cons.prems zs by (simp_all add: nth_append)
    define best' where "best' = (if s < best then s else best)"
    show ?thesis
    proof (cases "best' \<le> alpha")
      case True
      have "min_loop_st n ops h board color (m # ms) alpha beta best depth = Some (best', h3)"
        using unfold_st Some p True by (simp add: best'_def)
      moreover have "min_loop n ops (h ! board) color (m # ms) alpha beta best depth = Some best'"
        using pure True by (simp add: h2t best'_def)
      ultimately show ?thesis using zs by simp
    next
      case False
      have st: "min_loop_st n ops h board color (m # ms) alpha beta best depth =
                min_loop_st n ops h3 board color ms alpha (min beta best') best' depth"
        using unfold_st Some p False by (simp add: best'_def)
      have pu: "min_loop n ops (h ! board) color (m # ms) alpha beta best depth =
                min_loop n ops (h3 ! board) color ms alpha (min beta best') best' depth"
        using pure False by (simp add: h2t best'_def same)
      have ih: "case min_loop_st n ops h3 board color ms alpha (min beta best') best' depth of
         None \<Rightarrow> min_loop n ops (h3 ! board) color ms alpha (min beta best') best' depth = None
       | Some (s, h') \<Rightarrow>
           min_loop n ops (h3 ! board) color ms alpha (min beta best') best' depth = Some s \<and>
           (\<exists>zs. h' = h3 @ zs)"
        by (rule Cons.IH[OF b3])
      show ?thesis
      proof (cases "min_loop_st n ops h3 board color ms alpha (min beta best') best' depth")
        case None
        then show ?thesis using ih st pu by simp
      next
        case (Some q)
        obtain s' h' where q: "q = (s', h')" by (cases q)
        then obtain ys where "h' = h3 @ ys"
          and "min_loop n ops (h3 ! board) color ms alpha (min beta best') best' depth = Some s'"
          using ih Some by auto
        then show ?thesis using Some q st pu zs by simp
      qed
    qed
  qed
qed
lemma max_loop_st_frame:
  assumes child: "\<And>h t a b. t < length h \<Longrightarrow>
      (case min_score_st n ops h t (opponent_color color) a b (depth - 1) of
         None \<Rightarrow> min_score n ops (h ! t) (opponent_color color) a b (depth - 1) = None
       | Some (s, h') \<Rightarrow>
           min_score n ops (h ! t) (opponent_color color) a b (depth - 1) = Some s \<and>
           (\<exists>zs. h' = h @ zs))"
  shows "board < length h \<Longrightarrow>
      (case max_loop_st n ops h board color ms alpha beta best depth of
         None \<Rightarrow> max_loop n ops (h ! board) color ms alpha beta best depth = None
       | Some (s, h') \<Rightarrow>
           max_loop n ops (h ! board) color ms alpha beta best depth = Some s \<and>
           (\<exists>zs. h' = h @ zs))"
proof (induction ms arbitrary: h alpha best)
  case Nil
  show ?case by simp
next
  case (Cons m ms)
  define h2 where "h2 = h @ [process_move ops (h ! board) m color]"
  define t where "t = length h"
  have t: "t < length h2" and h2t: "h2 ! t = process_move ops (h ! board) m color"
    by (simp_all add: h2_def t_def)
  have unfold_st: "max_loop_st n ops h board color (m # ms) alpha beta best depth =
      (case min_score_st n ops h2 t (opponent_color color) alpha beta (depth - 1) of
         None \<Rightarrow> None
       | Some (score, h3) \<Rightarrow>
           (let best' = (if score > best then score else best) in
            if best' \<ge> beta then Some (best', h3)
            else max_loop_st n ops h3 board color ms (max alpha best') beta best' depth))"
    using Cons.prems
    by (simp add: deepcopy_def process_move_at_def nth_append h2_def t_def)
  show ?case
  proof (cases "min_score_st n ops h2 t (opponent_color color) alpha beta (depth - 1)")
    case None
    then have "min_score n ops (h2 ! t) (opponent_color color) alpha beta (depth - 1) = None"
      using child[OF t, of alpha beta] by simp
    then show ?thesis using None unfold_st by (simp add: h2t)
  next
    case (Some p)
    obtain s h3 where p: "p = (s, h3)" by (cases p)
    have pure: "min_score n ops (h2 ! t) (opponent_color color) alpha beta (depth - 1) = Some s"
      and ext: "\<exists>zs. h3 = h2 @ zs"
      using child[OF t, of alpha beta] Some p by simp_all
    then obtain zs where zs: "h3 = h @ (process_move ops (h ! board) m color # zs)"
      by (auto simp: h2_def)
    have b3: "board < length h3" and same: "h3 ! board = h ! board"
      using Cons.prems zs by (simp_all add: nth_append)
    define best' where "best' = (if s > best then s else best)"
    show ?thesis
    proof (cases "best' \<ge> beta")
      case True
      have "max_loop_st n ops h board color (m # ms) alpha beta best depth = Some (best', h3)"
        using unfold_st Some p True by (simp add: best'_def)
      moreover have "max_loop n ops (h ! board) color (m # ms) alpha beta best depth = Some best'"
        using pure True by (simp add: h2t best'_def)
      ultimately show ?thesis using zs by simp
    next
      case False
      have st: "max_loop_st n ops h board color (m # ms) alpha beta best depth =
                max_loop_st n ops h3 board color ms (max alpha best') beta best' depth"
        using unfold_st Some p False by (simp add: best'_def)
      have pu: "max_loop n ops (h ! board) color (m # ms) alpha beta best depth =
                max_loop n ops (h3 ! board) color ms (max alpha best') beta best' depth"
        using pure False by (simp add: h2t best'_def same)
      have ih: "case max_loop_st n ops h3 board color ms (max alpha best') beta best' depth of
         None \<Rightarrow> max_loop n ops (h3 ! board) color ms (max alpha best') beta best' depth = None
       | Some (s, h') \<Rightarrow>
           max_loop n ops (h3 ! board) color ms (max alpha best') beta best' depth = Some s \<and>
           (\<exists>zs. h' = h3 @ zs)"
        by (rule Cons.IH[OF b3])
      show ?thesis
      proof (cases "max_loop_st n ops h3 board color ms (max alpha best') beta best' depth")
        case None
        then show ?thesis using ih st pu by simp
      next
        case (Some q)
        obtain s' h' where q: "q = (s', h')" by (cases q)
        then obtain ys where "h' = h3 @ ys"
          and "max_loop n ops (h3 ! board) color ms (max alpha best') beta best' depth = Some s'"
          using ih Some by auto
        then show ?thesis using Some q st pu zs by simp
      qed
    qed
  qed
qed

lemma score_st_frame:
  "board < length h \<Longrightarrow>
     (case min_score_st n ops h board color alpha beta depth of
        None \<Rightarrow> min_score n ops (h ! board) color alpha beta depth = None
      | Some (s, h') \<Rightarrow>
          min_score n ops (h ! board) color alpha beta depth = Some s \<and> (\<exists>zs. h' = h @ zs)) \<and>
     (case max_score_st n ops h board color alpha beta depth of
        None \<Rightarrow> max_score n ops (h ! board) color alpha beta depth = None
      | Some (s, h') \<Rightarrow>
          max_score n ops (h ! board) color alpha beta depth = Some s \<and> (\<exists>zs. h' = h @ zs))"
proof (induction n arbitrary: h board color alpha beta depth)
  case 0
  show ?case by simp
next
  case (Suc n)
  show ?case
  proof (cases "depth = 0")
    case True
    then show ?thesis by simp
  next
    case False
    have A: "case min_loop_st n ops h board color (legal_moves ops (h ! board) color)
                  alpha beta PosInf depth of
        None \<Rightarrow> min_loop n ops (h ! board) color (legal_moves ops (h ! board) color)
                  alpha beta PosInf depth = None
      | Some (s, h') \<Rightarrow>
          min_loop n ops (h ! board) color (legal_moves ops (h ! board) color)
                  alpha beta PosInf depth = Some s \<and> (\<exists>zs. h' = h @ zs)"
      by (rule min_loop_st_frame[OF _ Suc.prems]) (rule Suc.IH[THEN conjunct2])
    have B: "case max_loop_st n ops h board color (legal_moves ops (h ! board) color)
                  alpha beta NegInf depth of
        None \<Rightarrow> max_loop n ops (h ! board) color (legal_moves ops (h ! board) color)
                  alpha beta NegInf depth = None
      | Some (s, h') \<Rightarrow>
          max_loop n ops (h ! board) color (legal_moves ops (h ! board) color)
                  alpha beta NegInf depth = Some s \<and> (\<exists>zs. h' = h @ zs)"
      by (rule max_loop_st_frame[OF _ Suc.prems]) (rule Suc.IH[THEN conjunct1])
    have e: "min_score_st (Suc n) ops h board color alpha beta depth =
             min_loop_st n ops h board color (legal_moves ops (h ! board) color)
               alpha beta PosInf depth"
      "min_score (Suc n) ops (h ! board) color alpha beta depth =
             min_loop n ops (h ! board) color (legal_moves ops (h ! board) color)
               alpha beta PosInf depth"
      "max_score_st (Suc n) ops h board color alpha beta depth =
             max_loop_st n ops h board color (legal_moves ops (h ! board) color)
               alpha beta NegInf depth"
      "max_score (Suc n) ops (h ! board) color alpha beta depth =
             max_loop n ops (h ! board) color (legal_moves ops (h ! board) color)
               alpha beta NegInf depth"
      using False by simp_all
    show ?thesis unfolding e using A B by (rule conjI)
  qed
qed

lemma alpha_beta_loop_st_frame:
  assumes g: "self_depth_limit g = self_depth_limit self" "self_color g = self_color self"
    "self_opponent_color g = self_opponent_color self"
  shows "self_board self < length h \<Longrightarrow> h ! self_board self = self_board g \<Longrightarrow>
     (case alpha_beta_loop_st n ops h self ms best fm of
        None \<Rightarrow> alpha_beta_loop n ops g ms best fm = None
      | Some (m, h') \<Rightarrow>
          alpha_beta_loop n ops g ms best fm = Some m \<and> (\<exists>zs. h' = h @ zs))"
proof (induction ms arbitrary: h best fm)
  case Nil
  show ?case by simp
next
  case (Cons m ms)
  define h2 where "h2 = h @ [process_move ops (h ! self_board self) m (self_color self)]"
  define t where "t = length h"
  have t: "t < length h2"
    and h2t: "h2 ! t = process_move ops (self_board g) m (self_color g)"
    using Cons.prems(2) by (simp_all add: h2_def t_def g)
  have unfold_st: "alpha_beta_loop_st n ops h self (m # ms) best fm =
      (case min_score_st n ops h2 t (self_opponent_color self) NegInf PosInf
              (self_depth_limit self - 1) of
         None \<Rightarrow> None
       | Some (score, h3) \<Rightarrow>
           if score > best then alpha_beta_loop_st n ops h3 self ms score m
           else alpha_beta_loop_st n ops h3 self ms best fm)"
    using Cons.prems(1)
    by (simp add: deepcopy_def process_move_at_def nth_append h2_def t_def)
  have rs: "root_score n ops g m =
      min_score n ops (h2 ! t) (self_opponent_color self) NegInf PosInf (self_depth_limit self - 1)"
    by (simp add: root_score_def h2t g)
  note child = score_st_frame[OF t, of n ops "self_opponent_color self" NegInf PosInf
      "self_depth_limit self - 1", THEN conjunct1]
  show ?case
  proof (cases "min_score_st n ops h2 t (self_opponent_color self) NegInf PosInf
              (self_depth_limit self - 1)")
    case None
    then have "root_score n ops g m = None" using child rs by simp
    then show ?thesis using None unfold_st by simp
  next
    case (Some p)
    obtain s h3 where p: "p = (s, h3)" by (cases p)
    have pure: "root_score n ops g m = Some s" and ext: "\<exists>zs. h3 = h2 @ zs"
      using child Some p rs by simp_all
    then obtain zs where zs: "h3 = h @ (process_move ops (h ! self_board self) m (self_color self) # zs)"
      by (auto simp: h2_def)
    have b3: "self_board self < length h3" and same: "h3 ! self_board self = self_board g"
      using Cons.prems zs by (simp_all add: nth_append)
    define best' fm' where "best' = (if s > best then s else best)"
      and "fm' = (if s > best then m else fm)"
    have st: "alpha_beta_loop_st n ops h self (m # ms) best fm =
              alpha_beta_loop_st n ops h3 self ms best' fm'"
      using unfold_st Some p by (simp add: best'_def fm'_def)
    have pu: "alpha_beta_loop n ops g (m # ms) best fm = alpha_beta_loop n ops g ms best' fm'"
      using pure by (simp add: best'_def fm'_def)
    have ih: "case alpha_beta_loop_st n ops h3 self ms best' fm' of
        None \<Rightarrow> alpha_beta_loop n ops g ms best' fm' = None
      | Some (m, h') \<Rightarrow>
          alpha_beta_loop n ops g ms best' fm' = Some m \<and> (\<exists>zs. h' = h3 @ zs)"
      by (rule Cons.IH[OF b3 same])
    show ?thesis
    proof (cases "alpha_beta_loop_st n ops h3 self ms best' fm'")
      case None
      then show ?thesis using ih st pu by simp
    next
      case (Some q)
      obtain m' h' where q: "q = (m', h')" by (cases q)
      then obtain ys where "h' = h3 @ ys"
        and "alpha_beta_loop n ops g ms best' fm' = Some m'"
        using ih Some by auto
      then show ?thesis using Some q st pu zs by simp
    qed
  qed
qed

lemma alpha_beta_min_max_st_frame:
  assumes "self_board self < length h"
  shows "case alpha_beta_min_max_st n ops h self of
        None \<Rightarrow> alpha_beta_min_max n ops
                  \<lparr>self_depth_limit = self_depth_limit self,
                   self_board = h ! self_board self, self_color = self_color self,
                   self_opponent_color = self_opponent_color self\<rparr> = None
      | Some (r, h') \<Rightarrow>
          alpha_beta_min_max n ops
                  \<lparr>self_depth_limit = self_depth_limit self,
                   self_board = h ! self_board self, self_color = self_color self,
                   self_opponent_color = self_opponent_color self\<rparr> = Some r \<and>
          (\<exists>zs. h' = h @ zs)"
proof -
  define g where "g = \<lparr>self_depth_limit = self_depth_limit self,
                   self_board = h ! self_board self, self_color = self_color self,
                   self_opponent_color = self_opponent_color self\<rparr>"
  have g: "self_depth_limit g = self_depth_limit self" "self_color g = self_color self"
    "self_opponent_color g = self_opponent_color self" "h ! self_board self = self_board g"
    by (simp_all add: g_def)
  show ?thesis
  proof (cases "legal_moves ops (h ! self_board self) (self_color self)")
    case Nil
    then show ?thesis by (simp add: alpha_beta_min_max_st_def alpha_beta_min_max_def)
  next
    case (Cons m0 ms)
    note loop = alpha_beta_loop_st_frame[OF g(1,2,3) assms g(4), of n ops "m0 # ms" NegInf m0]
    have st: "alpha_beta_min_max_st n ops h self =
        map_option (\<lambda>(move, h). (Inr move, h)) (alpha_beta_loop_st n ops h self (m0 # ms) NegInf m0)"
      using Cons by (simp add: alpha_beta_min_max_st_def)
    have pu: "alpha_beta_min_max n ops g = map_option Inr (alpha_beta_loop n ops g (m0 # ms) NegInf m0)"
      using Cons by (simp add: alpha_beta_min_max_def g_def)
    show ?thesis
    proof (cases "alpha_beta_loop_st n ops h self (m0 # ms) NegInf m0")
      case None
      then show ?thesis using loop st pu unfolding g_def[symmetric] by simp
    next
      case (Some q)
      obtain m' h' where q: "q = (m', h')" by (cases q)
      then show ?thesis using Some loop st pu unfolding g_def[symmetric] by simp
    qed
  qed
qed

text \<open>
  Claim C8. \<^verbatim>\<open>alpha_beta_min_max\<close> leaves every board object that existed before the
  call as it was: the store after the call is the store before it followed by the copies
  made during the search, so the board held by the engine is the same before and after,
  and the result is the one computed from the value of that board. Every move is played
  on a fresh copy. With a depth limit of at least 1 the call returns.
\<close>

theorem move_selection_leaves_boards_unchanged:
  assumes "self_board self < length h"
  shows "(\<forall>r h'. alpha_beta_min_max_st n ops h self = Some (r, h') \<longrightarrow>
            take (length h) h' = h \<and> h' ! self_board self = h ! self_board self \<and>
            alpha_beta_min_max n ops
              \<lparr>self_depth_limit = self_depth_limit self,
               self_board = h ! self_board self, self_color = self_color self,
               self_opponent_color = self_opponent_color self\<rparr> = Some r) \<and>
         (1 \<le> self_depth_limit self \<and> nat (self_depth_limit self) \<le> n \<longrightarrow>
            alpha_beta_min_max_st n ops h self \<noteq> None)"
proof -
  let ?g = "\<lparr>self_depth_limit = self_depth_limit self,
               self_board = h ! self_board self, self_color = self_color self,
               self_opponent_color = self_opponent_color self\<rparr>"
  note frame = alpha_beta_min_max_st_frame[OF assms, of n ops]
  have A: "\<forall>r h'. alpha_beta_min_max_st n ops h self = Some (r, h') \<longrightarrow>
            take (length h) h' = h \<and> h' ! self_board self = h ! self_board self \<and>
            alpha_beta_min_max n ops ?g = Some r"
  proof (intro allI impI)
    fix r h' assume eq: "alpha_beta_min_max_st n ops h self = Some (r, h')"
    then obtain zs where zs: "h' = h @ zs" and pu: "alpha_beta_min_max n ops ?g = Some r"
      using frame by auto
    have "take (length h) h' = h" using zs by simp
    moreover have "h' ! self_board self = h ! self_board self"
      using zs assms by (simp add: nth_append)
    ultimately show "take (length h) h' = h \<and> h' ! self_board self = h ! self_board self \<and>
            alpha_beta_min_max n ops ?g = Some r"
      using pu by blast
  qed
  have B: "1 \<le> self_depth_limit self \<and> nat (self_depth_limit self) \<le> n \<longrightarrow>
            alpha_beta_min_max_st n ops h self \<noteq> None"
  proof
    assume d: "1 \<le> self_depth_limit self \<and> nat (self_depth_limit self) \<le> n"
    have "alpha_beta_min_max n ops ?g \<noteq> None"
      by (rule alpha_beta_min_max_returns) (simp_all add: d)
    then show "alpha_beta_min_max_st n ops h self \<noteq> None"
      using frame by (cases "alpha_beta_min_max_st n ops h self") simp_all
  qed
  show ?thesis using A B by blast
qed

theorem move_selection_leaves_boards_unchanged_witness:
  "(0::nat) < length [ex_board] \<and>
   (\<exists>r h'. alpha_beta_min_max_st 2 ex_ops [ex_board]
              \<lparr>self_depth_limit = 2, self_board = 0, self_color = ''B'',
               self_opponent_color = ''W''\<rparr> = Some (r, h') \<and>
           h' ! 0 = ex_board \<and> take 1 h' = [ex_board])"
proof -
  let ?self = "\<lparr>self_depth_limit = 2, self_board = 0::nat, self_color = ''B'',
               self_opponent_color = ''W''\<rparr>"
  have 1: "self_board ?self < length [ex_board]" by simp
  have 2: "1 \<le> self_depth_limit ?self \<and> nat (self_depth_limit ?self) \<le> 2" by simp
  note all = move_selection_leaves_boards_unchanged[OF 1, of 2 ex_ops]
  have "alpha_beta_min_max_st 2 ex_ops [ex_board] ?self \<noteq> None"
    using all[THEN conjunct2] 2 by blast
  then obtain r h' where eq: "alpha_beta_min_max_st 2 ex_ops [ex_board] ?self = Some (r, h')"
    by (cases "alpha_beta_min_max_st 2 ex_ops [ex_board] ?self") auto
  have "take (length [ex_board]) h' = [ex_board] \<and> h' ! self_board ?self = [ex_board] ! self_board ?self"
    using all[THEN conjunct1, rule_format, OF eq] by blast
  then have "h' ! 0 = ex_board" "take 1 h' = [ex_board]" by simp_all
  then show ?thesis using eq by blast
qed

end
